theory Spec2Isabelle
  imports Main
begin

section \<open>The built-in Map that both caches extend\<close>

text \<open>
  Both classes of \<^verbatim>\<open>src/index.ts\<close> extend the built-in \<^verbatim>\<open>Map\<close> and reach its
  methods through \<^verbatim>\<open>super\<close>. A Map keeps its entries in insertion order with unique
  keys, so it is an association list: \<^verbatim>\<open>set\<close> on a key already present replaces the
  value where the key stands, \<^verbatim>\<open>set\<close> on a new key appends, \<^verbatim>\<open>delete\<close> removes the
  entry of the key. \<^verbatim>\<open>undefined\<close> as a result is \<open>None\<close>.

  The \<^verbatim>\<open>number\<close> fields of the classes hold entry counts and millisecond clock
  readings; they are integers here (\<open>int\<close>, so a negative ttl or capacity is an input).
\<close>

type_synonym ('k, 'v) jsmap = "('k \<times> 'v) list"

fun jsmap_set :: "'k \<Rightarrow> 'v \<Rightarrow> ('k, 'v) jsmap \<Rightarrow> ('k, 'v) jsmap" where
  "jsmap_set k v [] = [(k, v)]"
| "jsmap_set k v ((k', v') # m) =
     (if k' = k then (k, v) # m else (k', v') # jsmap_set k v m)"

fun jsmap_get :: "'k \<Rightarrow> ('k, 'v) jsmap \<Rightarrow> 'v option" where
  "jsmap_get k [] = None"
| "jsmap_get k ((k', v') # m) = (if k' = k then Some v' else jsmap_get k m)"

fun jsmap_has :: "'k \<Rightarrow> ('k, 'v) jsmap \<Rightarrow> bool" where
  "jsmap_has k [] = False"
| "jsmap_has k ((k', v') # m) = (if k' = k then True else jsmap_has k m)"

fun jsmap_delete :: "'k \<Rightarrow> ('k, 'v) jsmap \<Rightarrow> ('k, 'v) jsmap" where
  "jsmap_delete k [] = []"
| "jsmap_delete k ((k', v') # m) =
     (if k' = k then m else (k', v') # jsmap_delete k m)"

definition jsmap_size :: "('k, 'v) jsmap \<Rightarrow> int" where
  "jsmap_size m = int (length m)"

definition jsmap_keys :: "('k, 'v) jsmap \<Rightarrow> 'k list" where
  "jsmap_keys m = map fst m"

text \<open>\<^verbatim>\<open>keys().next().value\<close>: the first key in iteration order, \<^verbatim>\<open>undefined\<close> on an
  empty Map.\<close>

definition jsmap_first_key :: "('k, 'v) jsmap \<Rightarrow> 'k option" where
  "jsmap_first_key m = (case jsmap_keys m of [] \<Rightarrow> None | k # _ \<Rightarrow> Some k)"

section \<open>CacheLRU\<close>

record ('k, 'v) cache_lru =
  lru_entries :: "('k, 'v) jsmap"
  capacity :: int

definition lru_new :: "int \<Rightarrow> ('k, 'v) cache_lru" where
  "lru_new cap = \<lparr>lru_entries = [], capacity = cap\<rparr>"

text \<open>\<^verbatim>\<open>get\<close>: an absent key gives \<^verbatim>\<open>undefined\<close> and no change; a present key is deleted
  and set again, which moves it to the end of the iteration order.\<close>

definition lru_get :: "'k \<Rightarrow> ('k, 'v) cache_lru \<Rightarrow> 'v option \<times> ('k, 'v) cache_lru" where
  "lru_get key c =
     (if \<not> jsmap_has key (lru_entries c) then (None, c)
      else (case jsmap_get key (lru_entries c) of
              None \<Rightarrow> (None, c)
            | Some val \<Rightarrow>
                (Some val,
                 c\<lparr>lru_entries := jsmap_set key val (jsmap_delete key (lru_entries c))\<rparr>)))"

text \<open>\<^verbatim>\<open>set\<close>: when the size has reached the capacity, the first key of the iteration
  order is deleted (on an empty Map that key is \<^verbatim>\<open>undefined\<close> and nothing is deleted);
  then the entry is set.\<close>

definition lru_set :: "'k \<Rightarrow> 'v \<Rightarrow> ('k, 'v) cache_lru \<Rightarrow> ('k, 'v) cache_lru" where
  "lru_set key val c =
     (let m = (if jsmap_size (lru_entries c) \<ge> capacity c
               then (case jsmap_first_key (lru_entries c) of
                       None \<Rightarrow> lru_entries c
                     | Some k0 \<Rightarrow> jsmap_delete k0 (lru_entries c))
               else lru_entries c)
      in c\<lparr>lru_entries := jsmap_set key val m\<rparr>)"

text \<open>\<^verbatim>\<open>delete\<close> and \<^verbatim>\<open>clear\<close> are inherited from Map unchanged.\<close>

definition lru_delete :: "'k \<Rightarrow> ('k, 'v) cache_lru \<Rightarrow> bool \<times> ('k, 'v) cache_lru" where
  "lru_delete key c =
     (jsmap_has key (lru_entries c), c\<lparr>lru_entries := jsmap_delete key (lru_entries c)\<rparr>)"

definition lru_clear :: "('k, 'v) cache_lru \<Rightarrow> ('k, 'v) cache_lru" where
  "lru_clear c = c\<lparr>lru_entries := []\<rparr>"

datatype ('k, 'v) lru_op = LSet 'k 'v | LGet 'k | LDelete 'k | LClear

fun lru_step :: "('k, 'v) lru_op \<Rightarrow> ('k, 'v) cache_lru \<Rightarrow> ('k, 'v) cache_lru" where
  "lru_step (LSet k v) c = lru_set k v c"
| "lru_step (LGet k) c = snd (lru_get k c)"
| "lru_step (LDelete k) c = snd (lru_delete k c)"
| "lru_step LClear c = lru_clear c"

fun lru_run :: "('k, 'v) lru_op list \<Rightarrow> ('k, 'v) cache_lru \<Rightarrow> ('k, 'v) cache_lru" where
  "lru_run [] c = c"
| "lru_run (op # ops) c = lru_run ops (lru_step op c)"

text \<open>A run of \<^verbatim>\<open>set\<close> calls, one for each pair of the list, in order.\<close>

definition lru_sets :: "('k \<times> 'v) list \<Rightarrow> ('k, 'v) lru_op list" where
  "lru_sets kvs = map (\<lambda>(k, v). LSet k v) kvs"

section \<open>CacheTTL\<close>

text \<open>The handle that \<^verbatim>\<open>setInterval\<close> returns, with the period it was started with.
  The field \<^verbatim>\<open>expirationInterval\<close> holds it while the timer is scheduled and is
  \<^verbatim>\<open>undefined\<close> otherwise; the source assigns the field and schedules or cancels the
  timer together, so the field is the timer's state.\<close>

datatype timeout = Timeout int

record ('k, 'v) cache_ttl =
  ttl_entries :: "('k, 'v) jsmap"
  interval :: int
  expirationTimes :: "('k, int) jsmap"
  expirationInterval :: "timeout option"

text \<open>The body of the \<^verbatim>\<open>forEach\<close> of the timer's callback. The callback deletes only
  the key it is visiting, so every entry that was in \<^verbatim>\<open>expirationTimes\<close> when the scan
  began is visited once: the scan is a recursion over that list.\<close>

fun expire_each :: "int \<Rightarrow> ('k, int) jsmap \<Rightarrow> ('k, 'v) cache_ttl \<Rightarrow> ('k, 'v) cache_ttl" where
  "expire_each now [] c = c"
| "expire_each now ((key, ttl) # rest) c =
     expire_each now rest
       (if now > ttl
        then c\<lparr>expirationTimes := jsmap_delete key (expirationTimes c),
               ttl_entries := jsmap_delete key (ttl_entries c)\<rparr>
        else c)"

text \<open>The callback given to \<^verbatim>\<open>setInterval\<close>, run at clock reading \<open>now\<close>.\<close>

definition sweep_callback :: "int \<Rightarrow> ('k, 'v) cache_ttl \<Rightarrow> ('k, 'v) cache_ttl" where
  "sweep_callback now c =
     (let c1 = expire_each now (expirationTimes c) c
      in if jsmap_size (expirationTimes c1) = 0
         then c1\<lparr>expirationInterval := None\<rparr>
         else c1)"

definition startExpirationInterval :: "('k, 'v) cache_ttl \<Rightarrow> ('k, 'v) cache_ttl" where
  "startExpirationInterval c =
     (if expirationInterval c = None \<and> jsmap_size (expirationTimes c) > 0 \<and> interval c > 0
      then c\<lparr>expirationInterval := Some (Timeout (interval c))\<rparr>
      else c)"

definition ttl_new :: "int \<Rightarrow> ('k, 'v) cache_ttl" where
  "ttl_new i =
     (let c = \<lparr>ttl_entries = [], interval = i, expirationTimes = [],
               expirationInterval = None\<rparr>
      in if interval c > 0 then startExpirationInterval c else c)"

text \<open>\<^verbatim>\<open>set(key, data, ttl = this.interval)\<close> at clock reading \<open>now\<close>; an omitted ttl is
  \<open>None\<close>.\<close>

definition ttl_set ::
  "'k \<Rightarrow> 'v \<Rightarrow> int option \<Rightarrow> int \<Rightarrow> ('k, 'v) cache_ttl \<Rightarrow> ('k, 'v) cache_ttl" where
  "ttl_set key data ttl_arg now c =
     (let ttl = (case ttl_arg of None \<Rightarrow> interval c | Some t \<Rightarrow> t);
          c1 = c\<lparr>ttl_entries := jsmap_set key data (ttl_entries c)\<rparr>;
          expirationTime = now + ttl;
          c2 = c1\<lparr>expirationTimes := jsmap_set key expirationTime (expirationTimes c1)\<rparr>
      in startExpirationInterval c2)"

text \<open>\<^verbatim>\<open>get(key)\<close> at clock reading \<open>now\<close>. The guard \<^verbatim>\<open>expirationTime && ...\<close> is a
  truthiness test: it fails for \<^verbatim>\<open>undefined\<close> (no expiry stored) and for the number 0.\<close>

definition ttl_get :: "'k \<Rightarrow> int \<Rightarrow> ('k, 'v) cache_ttl \<Rightarrow> 'v option \<times> ('k, 'v) cache_ttl" where
  "ttl_get key now c =
     (case jsmap_get key (expirationTimes c) of
        None \<Rightarrow> (jsmap_get key (ttl_entries c), c)
      | Some expirationTime \<Rightarrow>
          if expirationTime \<noteq> 0 \<and> now > expirationTime
          then (None, c\<lparr>expirationTimes := jsmap_delete key (expirationTimes c),
                        ttl_entries := jsmap_delete key (ttl_entries c)\<rparr>)
          else (jsmap_get key (ttl_entries c), c))"

definition ttl_delete :: "'k \<Rightarrow> ('k, 'v) cache_ttl \<Rightarrow> bool \<times> ('k, 'v) cache_ttl" where
  "ttl_delete key c =
     (let c1 = c\<lparr>expirationTimes := jsmap_delete key (expirationTimes c)\<rparr>
      in (jsmap_has key (ttl_entries c1),
          c1\<lparr>ttl_entries := jsmap_delete key (ttl_entries c1)\<rparr>))"

definition ttl_clear :: "('k, 'v) cache_ttl \<Rightarrow> ('k, 'v) cache_ttl" where
  "ttl_clear c = c\<lparr>expirationTimes := [], ttl_entries := []\<rparr>"

text \<open>One event on a cache: a public operation, or the timer firing. The timer can
  fire only while it is scheduled.\<close>

datatype ('k, 'v) ttl_op = TSet 'k 'v "int option" | TGet 'k | TDelete 'k | TClear | TTick

fun ttl_step :: "int \<Rightarrow> ('k, 'v) ttl_op \<Rightarrow> ('k, 'v) cache_ttl \<Rightarrow> ('k, 'v) cache_ttl" where
  "ttl_step now (TSet k v ttl) c = ttl_set k v ttl now c"
| "ttl_step now (TGet k) c = snd (ttl_get k now c)"
| "ttl_step now (TDelete k) c = snd (ttl_delete k c)"
| "ttl_step now TClear c = ttl_clear c"
| "ttl_step now TTick c =
     (if expirationInterval c = None then c else sweep_callback now c)"

text \<open>A history: each event with the clock reading at which it happens.\<close>

fun ttl_run :: "(int \<times> ('k, 'v) ttl_op) list \<Rightarrow> ('k, 'v) cache_ttl \<Rightarrow> ('k, 'v) cache_ttl" where
  "ttl_run [] c = c"
| "ttl_run ((now, op) # ops) c = ttl_run ops (ttl_step now op c)"

text \<open>The events that leave an entry of key \<open>k\<close> to its expiry: a get of any key, the
  timer firing, and a set or a delete of another key. A set or delete of \<open>k\<close> and a clear
  replace or remove the entry themselves.\<close>

fun ttl_keeps :: "'k \<Rightarrow> ('k, 'v) ttl_op \<Rightarrow> bool" where
  "ttl_keeps k (TSet k' v ttl) = (k' \<noteq> k)"
| "ttl_keeps k (TGet k') = True"
| "ttl_keeps k (TDelete k') = (k' \<noteq> k)"
| "ttl_keeps k TClear = False"
| "ttl_keeps k TTick = True"

text \<open>The two stores in lockstep: each is a Map (unique keys), and they hold the same
  keys.\<close>

definition ttl_inv :: "('k, 'v) cache_ttl \<Rightarrow> bool" where
  "ttl_inv c \<longleftrightarrow>
     distinct (jsmap_keys (ttl_entries c)) \<and> distinct (jsmap_keys (expirationTimes c))
     \<and> set (jsmap_keys (ttl_entries c)) = set (jsmap_keys (expirationTimes c))"

text \<open>What is known of key \<open>k\<close>, stored with value \<open>v\<close> and expiry \<open>e\<close>, before a read
  at \<open>t\<close>: the entry is still in both stores, or a scan or a get after \<open>e\<close> has removed
  it from both.\<close>

definition ttl_live :: "'k \<Rightarrow> 'v \<Rightarrow> int \<Rightarrow> int \<Rightarrow> ('k, 'v) cache_ttl \<Rightarrow> bool" where
  "ttl_live k v e t c \<longleftrightarrow>
     ttl_inv c \<and>
     (jsmap_get k (expirationTimes c) = Some e \<and> jsmap_get k (ttl_entries c) = Some v
      \<or> t > e \<and> jsmap_get k (expirationTimes c) = None \<and> jsmap_get k (ttl_entries c) = None)"

section \<open>Facts about the Map operations\<close>

lemma jsmap_get_set: "jsmap_get k (jsmap_set k' v m) = (if k = k' then Some v else jsmap_get k m)"
  by (induction m) auto

lemma jsmap_has_get: "jsmap_has k m = (jsmap_get k m \<noteq> None)"
  by (induction m) (auto split: if_splits)

lemma jsmap_keys_Cons [simp]: "jsmap_keys ((k, v) # m) = k # jsmap_keys m"
  by (simp add: jsmap_keys_def)

lemma jsmap_keys_Nil [simp]: "jsmap_keys [] = []"
  by (simp add: jsmap_keys_def)

lemma jsmap_get_None: "jsmap_get k m = None \<longleftrightarrow> k \<notin> set (jsmap_keys m)"
  by (induction m) (auto split: if_splits)

lemma jsmap_keys_set:
  "jsmap_keys (jsmap_set k v m) =
     (if k \<in> set (jsmap_keys m) then jsmap_keys m else jsmap_keys m @ [k])"
  by (induction m) auto

lemma jsmap_keys_delete: "jsmap_keys (jsmap_delete k m) = remove1 k (jsmap_keys m)"
  by (induction m) auto

lemma jsmap_distinct_set: "distinct (jsmap_keys m) \<Longrightarrow> distinct (jsmap_keys (jsmap_set k v m))"
  by (simp add: jsmap_keys_set)

lemma jsmap_distinct_delete: "distinct (jsmap_keys m) \<Longrightarrow> distinct (jsmap_keys (jsmap_delete k m))"
  by (simp add: jsmap_keys_delete)

lemma jsmap_get_delete:
  "distinct (jsmap_keys m) \<Longrightarrow>
   jsmap_get k (jsmap_delete k' m) = (if k = k' then None else jsmap_get k m)"
  by (induction m) (auto simp: jsmap_get_None jsmap_keys_delete split: if_splits)

lemma jsmap_length_delete: "length (jsmap_delete k m) \<le> length m"
  by (induction m) auto

lemma jsmap_length_set: "length (jsmap_set k v m) \<le> Suc (length m)"
  by (induction m) auto

lemma jsmap_set_fresh: "k \<notin> set (jsmap_keys m) \<Longrightarrow> jsmap_set k v m = m @ [(k, v)]"
  by (induction m) auto

section \<open>CacheLRU: the documented scenario\<close>

text \<open>
  C3. A CacheLRU of capacity 2 after set("a",1); set("b",2); get("a"); set("c",3) holds
  exactly the entries a:1 and c:3, in that order: the get moved "a" behind "b", so the
  third set evicted "b".
\<close>

theorem C3_lru_scenario:
  "lru_entries (lru_run [LSet ''a'' 1, LSet ''b'' 2, LGet ''a'', LSet ''c'' 3]
                  (lru_new 2 :: (string, int) cache_lru))
   = [(''a'', 1), (''c'', 3)]"
  by (simp add: lru_new_def lru_set_def lru_get_def jsmap_size_def jsmap_first_key_def
      jsmap_keys_def)

section \<open>CacheLRU: eviction and the capacity bound\<close>

lemma lru_run_append: "lru_run (xs @ ys) c = lru_run ys (lru_run xs c)"
  by (induction xs arbitrary: c) auto

lemma lru_step_capacity: "capacity (lru_step op c) = capacity c"
  by (cases op) (auto simp: lru_set_def lru_get_def lru_delete_def lru_clear_def Let_def split: option.splits)

lemma lru_run_capacity: "capacity (lru_run ops c) = capacity c"
  by (induction ops arbitrary: c) (auto simp: lru_step_capacity)

lemma lru_fill:
  "distinct (map fst kvs) \<Longrightarrow> int (length kvs) \<le> C \<Longrightarrow>
   lru_entries (lru_run (lru_sets kvs) (lru_new C)) = kvs"
proof (induction kvs rule: rev_induct)
  case Nil
  then show ?case by (simp add: lru_sets_def lru_new_def)
next
  case (snoc p kvs)
  obtain k v where p: "p = (k, v)" by (cases p)
  let ?c = "lru_run (lru_sets kvs) (lru_new C)"
  have e: "lru_entries ?c = kvs" using snoc by simp
  have cap: "capacity ?c = C" by (simp add: lru_run_capacity lru_new_def)
  have lt: "\<not> C \<le> jsmap_size (lru_entries ?c)" using snoc.prems e by (simp add: jsmap_size_def)
  have fresh: "k \<notin> set (jsmap_keys kvs)" using snoc.prems p by (simp add: jsmap_keys_def)
  have "lru_entries (lru_set k v ?c) = kvs @ [(k, v)]"
    using lt cap e fresh by (simp add: lru_set_def jsmap_set_fresh)
  then show ?case by (simp add: lru_sets_def lru_run_append p)
qed

text \<open>
  C4. A CacheLRU of capacity \<open>C \<ge> 1\<close>, starting empty, after \<open>C + 1\<close> sets of distinct
  keys \<open>k1 .. k(C+1)\<close> with no get in between, holds exactly the entries of
  \<open>k2 .. k(C+1)\<close>, in that order, and \<open>k1\<close> is gone. And every set that finds the size
  at or above the capacity removes exactly the first entry of the iteration order and
  then sets the new entry in what remains.
\<close>

theorem C4_lru_overflow_evicts_first:
  fixes kvs :: "('k \<times> 'v) list"
  assumes "1 \<le> C" and "distinct (map fst kvs)" and "int (length kvs) = C + 1"
  shows "lru_entries (lru_run (lru_sets kvs) (lru_new C)) = tl kvs
       \<and> (\<forall>(c :: ('k, 'v) cache_lru) k v. capacity c = C \<and> jsmap_size (lru_entries c) \<ge> capacity c \<longrightarrow>
            (\<exists>k0 v0 rest. lru_entries c = (k0, v0) # rest
                \<and> lru_entries (lru_set k v c) = jsmap_set k v rest))"
proof (intro conjI allI impI)
  from assms have ne: "kvs \<noteq> []" by auto
  obtain k v where l: "last kvs = (k, v)" by (cases "last kvs")
  let ?b = "butlast kvs"
  have kvs: "kvs = ?b @ [(k, v)]" using ne l by (metis append_butlast_last_id)
  have db: "distinct (map fst ?b)" using assms(2) by (simp add: distinct_butlast map_butlast)
  have lb: "int (length ?b) = C" using assms(3) ne by (cases kvs) auto
  have bne: "?b \<noteq> []" using lb assms(1) by (cases ?b) auto
  then obtain k0 v0 rest where b: "?b = (k0, v0) # rest" by (cases ?b) auto
  let ?c = "lru_run (lru_sets ?b) (lru_new C)"
  have e: "lru_entries ?c = ?b" using lru_fill [OF db] lb by simp
  have cap: "capacity ?c = C" by (simp add: lru_run_capacity lru_new_def)
  have "distinct (map fst (?b @ [(k, v)]))" using assms(2) kvs by simp
  then have fresh: "k \<notin> set (jsmap_keys rest)" using b by (auto simp: jsmap_keys_def)
  have "lru_entries (lru_set k v ?c) = rest @ [(k, v)]"
    using e cap lb b fresh
    by (simp add: lru_set_def jsmap_size_def jsmap_first_key_def jsmap_keys_def jsmap_set_fresh)
  moreover have "lru_run (lru_sets kvs) (lru_new C) = lru_set k v ?c"
  proof -
    have "lru_sets kvs = lru_sets ?b @ [LSet k v]"
      using kvs by (metis (no_types, lifting) lru_sets_def map_append list.simps(8,9) case_prod_conv)
    then show ?thesis by (simp add: lru_run_append)
  qed
  moreover have "tl kvs = rest @ [(k, v)]" using kvs b by (metis list.sel(3) append_Cons)
  ultimately show "lru_entries (lru_run (lru_sets kvs) (lru_new C)) = tl kvs" by simp
next
  fix c :: "('k, 'v) cache_lru" and k v
  assume h: "capacity c = C \<and> capacity c \<le> jsmap_size (lru_entries c)"
  then have "lru_entries c \<noteq> []" using assms(1) by (auto simp: jsmap_size_def)
  then obtain k0 v0 rest where e: "lru_entries c = (k0, v0) # rest"
    by (cases "lru_entries c") auto
  then have "lru_entries (lru_set k v c) = jsmap_set k v rest"
    using h by (simp add: lru_set_def jsmap_first_key_def jsmap_keys_def)
  then show "\<exists>k0 v0 rest. lru_entries c = (k0, v0) # rest
                \<and> lru_entries (lru_set k v c) = jsmap_set k v rest"
    using e by blast
qed

theorem C4_lru_overflow_witness:
  "(1::int) \<le> 2
   \<and> distinct (map fst [(''a'', 1::int), (''b'', 2), (''c'', 3)])
   \<and> int (length [(''a'', 1::int), (''b'', 2), (''c'', 3)]) = 2 + 1
   \<and> lru_entries (lru_run (lru_sets [(''a'', 1::int), (''b'', 2), (''c'', 3)]) (lru_new 2))
       = [(''b'', 2), (''c'', 3)]
   \<and> capacity (lru_run (lru_sets [(''a'', 1::int), (''b'', 2)]) (lru_new 2)) = 2
   \<and> jsmap_size (lru_entries (lru_run (lru_sets [(''a'', 1::int), (''b'', 2)]) (lru_new 2)))
       \<ge> capacity (lru_run (lru_sets [(''a'', 1::int), (''b'', 2)]) (lru_new 2))
   \<and> lru_entries (lru_set ''c'' 3 (lru_run (lru_sets [(''a'', 1::int), (''b'', 2)]) (lru_new 2)))
       = jsmap_set ''c'' 3 [(''b'', 2)]"
  using C4_lru_overflow_evicts_first [of 2 "[(''a'', 1::int), (''b'', 2), (''c'', 3)]"]
  by (simp add: lru_sets_def lru_new_def lru_set_def jsmap_size_def jsmap_first_key_def)

lemma jsmap_length_delete_has:
  "jsmap_has k m \<Longrightarrow> Suc (length (jsmap_delete k m)) = length m"
  by (induction m) (auto split: if_splits)

lemma lru_set_size:
  assumes "jsmap_size (lru_entries c) \<le> max 1 (capacity c)"
  shows "jsmap_size (lru_entries (lru_set k v c)) \<le> max 1 (capacity c)"
proof (cases "lru_entries c")
  case Nil
  then show ?thesis by (simp add: lru_set_def jsmap_size_def jsmap_first_key_def)
next
  case (Cons p rest)
  obtain k0 v0 where p: "p = (k0, v0)" by (cases p)
  have l: "int (length (jsmap_set k v rest)) \<le> int (length rest) + 1"
    using jsmap_length_set [of k v rest] by simp
  have l2: "int (length (jsmap_set k v (p # rest))) \<le> int (length rest) + 2"
    using jsmap_length_set [of k v "p # rest"] by simp
  show ?thesis
  proof (cases "jsmap_size (lru_entries c) \<ge> capacity c")
    case True
    then have "lru_entries (lru_set k v c) = jsmap_set k v rest"
      using Cons p by (simp add: lru_set_def jsmap_first_key_def)
    then show ?thesis using l assms Cons by (simp add: jsmap_size_def)
  next
    case False
    then have "lru_entries (lru_set k v c) = jsmap_set k v (p # rest)"
      using Cons by (simp add: lru_set_def)
    then show ?thesis using l2 False Cons by (simp add: jsmap_size_def)
  qed
qed

lemma lru_get_size: "jsmap_size (lru_entries (snd (lru_get k c))) \<le> jsmap_size (lru_entries c)"
proof (cases "jsmap_has k (lru_entries c)")
  case False
  then show ?thesis by (simp add: lru_get_def)
next
  case True
  then obtain val where g: "jsmap_get k (lru_entries c) = Some val"
    by (auto simp: jsmap_has_get)
  have "length (jsmap_set k val (jsmap_delete k (lru_entries c))) \<le> length (lru_entries c)"
    using jsmap_length_set [of k val "jsmap_delete k (lru_entries c)"]
      jsmap_length_delete_has [OF True] by simp
  then show ?thesis using True g by (simp add: lru_get_def jsmap_size_def)
qed

lemma lru_step_size:
  assumes "jsmap_size (lru_entries c) \<le> max 1 (capacity c)"
  shows "jsmap_size (lru_entries (lru_step op c)) \<le> max 1 (capacity c)"
proof (cases op)
  case (LSet k v)
  then show ?thesis using lru_set_size [OF assms] by simp
next
  case (LGet k)
  then show ?thesis using lru_get_size [of k c] assms by simp
next
  case (LDelete k)
  then show ?thesis using jsmap_length_delete [of k "lru_entries c"] assms
    by (simp add: lru_delete_def jsmap_size_def)
next
  case LClear
  then show ?thesis by (simp add: lru_clear_def jsmap_size_def)
qed

lemma lru_run_size:
  "jsmap_size (lru_entries c) \<le> max 1 (capacity c) \<Longrightarrow>
   jsmap_size (lru_entries (lru_run ops c)) \<le> max 1 (capacity c)"
proof (induction ops arbitrary: c)
  case Nil
  then show ?case by simp
next
  case (Cons op ops)
  have "jsmap_size (lru_entries (lru_step op c)) \<le> max 1 (capacity (lru_step op c))"
    using lru_step_size [OF Cons.prems] by (simp add: lru_step_capacity)
  then show ?case using Cons.IH [of "lru_step op c"] by (simp add: lru_step_capacity)
qed

text \<open>
  C10. For a CacheLRU of capacity \<open>C \<ge> 1\<close>, every public operation (get, set, and the
  inherited delete and clear) keeps the entry count at most \<open>C\<close>, and leaves the
  capacity as it is.
\<close>

theorem C10_lru_size_bounded:
  assumes "1 \<le> capacity c" and "jsmap_size (lru_entries c) \<le> capacity c"
  shows "jsmap_size (lru_entries (lru_step op c)) \<le> capacity (lru_step op c)
       \<and> capacity (lru_step op c) = capacity c"
  using lru_step_size [of c op] assms by (simp add: lru_step_capacity)

theorem C10_lru_size_witness:
  "1 \<le> capacity (lru_set ''a'' (1::int) (lru_new 1))
   \<and> jsmap_size (lru_entries (lru_set ''a'' (1::int) (lru_new 1)))
       \<le> capacity (lru_set ''a'' (1::int) (lru_new 1))
   \<and> jsmap_size (lru_entries (lru_step (LSet ''b'' 2) (lru_set ''a'' (1::int) (lru_new 1))))
       \<le> 1"
  using C10_lru_size_bounded [of "lru_set ''a'' (1::int) (lru_new 1)" "LSet ''b'' 2"]
  by (simp add: lru_new_def lru_set_def jsmap_size_def jsmap_first_key_def)

text \<open>
  C6. A CacheLRU of capacity 0: on the empty cache there is no first key to evict, and a
  set leaves the one entry it inserts. After any history of public operations a set
  leaves exactly the entry it inserts, so the size is then one above the capacity.
\<close>

theorem C6_lru_capacity_zero:
  "jsmap_first_key (lru_entries (lru_new 0 :: ('k, 'v) cache_lru)) = None
   \<and> lru_entries (lru_set k v (lru_new 0 :: ('k, 'v) cache_lru)) = [(k, v)]
   \<and> lru_entries (lru_set k v (lru_run ops (lru_new 0))) = [(k, v)]
   \<and> jsmap_size (lru_entries (lru_set k v (lru_run ops (lru_new 0))))
       = capacity (lru_set k v (lru_run ops (lru_new 0))) + 1"
proof -
  let ?c = "lru_run ops (lru_new 0 :: ('k, 'v) cache_lru)"
  have cap: "capacity ?c = 0" by (simp add: lru_run_capacity lru_new_def)
  have "jsmap_size (lru_entries ?c) \<le> max 1 (capacity (lru_new 0 :: ('k, 'v) cache_lru))"
    by (rule lru_run_size) (simp add: lru_new_def jsmap_size_def)
  then have le: "length (lru_entries ?c) \<le> 1" by (simp add: lru_new_def jsmap_size_def)
  have e: "lru_entries (lru_set k v ?c) = [(k, v)]"
  proof (cases "lru_entries ?c")
    case Nil
    then show ?thesis using cap by (simp add: lru_set_def jsmap_size_def jsmap_first_key_def)
  next
    case (Cons p rest)
    obtain k0 v0 where p: "p = (k0, v0)" by (cases p)
    have "rest = []" using le Cons by simp
    then show ?thesis using cap Cons p
      by (simp add: lru_set_def jsmap_size_def jsmap_first_key_def)
  qed
  have cap': "capacity (lru_set k v ?c) = 0" using cap by (simp add: lru_set_def Let_def)
  show ?thesis using e cap'
    by (simp add: lru_new_def lru_set_def jsmap_size_def jsmap_first_key_def)
qed

section \<open>CacheTTL: the two stores stay in lockstep\<close>

lemma ttl_inv_delete_both:
  assumes "ttl_inv c"
  shows "ttl_inv (c\<lparr>expirationTimes := jsmap_delete k (expirationTimes c),
                    ttl_entries := jsmap_delete k (ttl_entries c)\<rparr>)"
  using assms by (simp add: ttl_inv_def jsmap_keys_delete)

lemma ttl_inv_expire_each: "ttl_inv c \<Longrightarrow> ttl_inv (expire_each now xs c)"
proof (induction xs arbitrary: c)
  case Nil
  then show ?case by simp
next
  case (Cons p xs)
  obtain key ttl where p: "p = (key, ttl)" by (cases p)
  show ?case using Cons.IH Cons.prems ttl_inv_delete_both [OF Cons.prems, of key]
    by (simp add: p)
qed

lemma ttl_inv_timer [simp]: "ttl_inv (c\<lparr>expirationInterval := x\<rparr>) = ttl_inv c"
  by (simp add: ttl_inv_def)

lemma ttl_inv_start [simp]: "ttl_inv (startExpirationInterval c) = ttl_inv c"
  by (simp add: startExpirationInterval_def)

lemma ttl_inv_sweep: "ttl_inv c \<Longrightarrow> ttl_inv (sweep_callback now c)"
  using ttl_inv_expire_each [of c now "expirationTimes c"]
  by (simp add: sweep_callback_def Let_def)

lemma ttl_inv_set: "ttl_inv c \<Longrightarrow> ttl_inv (ttl_set k v ttl now c)"
  by (simp add: ttl_set_def Let_def) (auto simp: ttl_inv_def jsmap_keys_set)

lemma ttl_inv_get: "ttl_inv c \<Longrightarrow> ttl_inv (snd (ttl_get k now c))"
  using ttl_inv_delete_both [of c k] by (simp add: ttl_get_def split: option.splits)

lemma ttl_inv_delete: "ttl_inv c \<Longrightarrow> ttl_inv (snd (ttl_delete k c))"
  using ttl_inv_delete_both [of c k] by (simp add: ttl_delete_def Let_def)

lemma ttl_inv_clear: "ttl_inv (ttl_clear c)"
  by (simp add: ttl_clear_def ttl_inv_def)

lemma ttl_inv_new: "ttl_inv (ttl_new i)"
  by (simp add: ttl_new_def Let_def) (simp add: ttl_inv_def)

lemma ttl_inv_step: "ttl_inv c \<Longrightarrow> ttl_inv (ttl_step now op c)"
  by (cases op) (simp_all add: ttl_inv_set ttl_inv_get ttl_inv_delete ttl_inv_clear ttl_inv_sweep)

lemma ttl_inv_run: "ttl_inv c \<Longrightarrow> ttl_inv (ttl_run ops c)"
proof (induction ops arbitrary: c)
  case Nil
  then show ?case by simp
next
  case (Cons p ops)
  obtain now op where p: "p = (now, op)" by (cases p)
  show ?case using Cons.IH [OF ttl_inv_step [OF Cons.prems]] by (simp add: p)
qed

text \<open>
  C5. After any history of public operations (set, get, delete, clear) and firings of
  the timer on a new CacheTTL, the value store and the expiry index hold the same set of
  keys, and so have the same size.
\<close>

theorem C5_ttl_stores_in_lockstep:
  "set (jsmap_keys (ttl_entries (ttl_run ops (ttl_new i))))
     = set (jsmap_keys (expirationTimes (ttl_run ops (ttl_new i))))
   \<and> jsmap_size (ttl_entries (ttl_run ops (ttl_new i)))
     = jsmap_size (expirationTimes (ttl_run ops (ttl_new i)))"
proof -
  let ?c = "ttl_run ops (ttl_new i)"
  have inv: "ttl_inv ?c" by (rule ttl_inv_run [OF ttl_inv_new])
  then have "length (jsmap_keys (ttl_entries ?c)) = length (jsmap_keys (expirationTimes ?c))"
    by (metis ttl_inv_def distinct_card)
  then show ?thesis using inv by (simp add: ttl_inv_def jsmap_size_def jsmap_keys_def)
qed

section \<open>CacheTTL: the life of the timer\<close>

text \<open>
  C1, as stated, fails: with interval 10, after set("a", 1) at time 0 the timer is
  scheduled; clear() then empties the expiry index and the timer is still scheduled.
\<close>

theorem C1_clear_keeps_timer_counterexample:
  "expirationInterval (ttl_set ''a'' (1::int) None 0 (ttl_new 10)) = Some (Timeout 10)
   \<and> expirationTimes (ttl_clear (ttl_set ''a'' (1::int) None 0 (ttl_new 10))) = []
   \<and> expirationInterval (ttl_clear (ttl_set ''a'' (1::int) None 0 (ttl_new 10)))
       = Some (Timeout 10)"
  by (simp add: ttl_new_def ttl_set_def ttl_clear_def startExpirationInterval_def
      jsmap_size_def Let_def)

lemma expire_each_timer: "expirationInterval (expire_each now xs c) = expirationInterval c"
  by (induction xs arbitrary: c) auto

lemma jsmap_size_set_pos: "jsmap_size (jsmap_set k v m) > 0"
  by (cases m) (auto simp: jsmap_size_def split: if_splits)

text \<open>
  C1, amended. clear(), delete() and get() leave the timer as it was, also when they
  empty the expiry index, and set() leaves a scheduled timer as it is (it schedules one
  when none is scheduled and the interval is positive). The timer is cancelled by its
  own callback only: after a firing the timer is cancelled if the expiry index is empty
  after the scan, and is as before otherwise; so the firing that follows a clear()
  cancels it.
\<close>

theorem C1_timer_cancelled_by_its_callback:
  "expirationInterval (ttl_clear c) = expirationInterval c
   \<and> expirationInterval (snd (ttl_delete k c)) = expirationInterval c
   \<and> expirationInterval (snd (ttl_get k now c)) = expirationInterval c
   \<and> expirationInterval (ttl_set k v ttl now c)
       = (if expirationInterval c = None \<and> interval c > 0
          then Some (Timeout (interval c)) else expirationInterval c)
   \<and> expirationInterval (sweep_callback now c)
       = (if expirationTimes (sweep_callback now c) = [] then None else expirationInterval c)
   \<and> expirationInterval (sweep_callback now (ttl_clear c)) = None"
proof -
  have "expirationTimes (expire_each now [] (ttl_clear c)) = []"
    by (simp add: ttl_clear_def)
  then have "expirationInterval (sweep_callback now (ttl_clear c)) = None"
    by (simp add: sweep_callback_def ttl_clear_def jsmap_size_def)
  moreover have "expirationInterval (ttl_set k v ttl now c)
       = (if expirationInterval c = None \<and> interval c > 0
          then Some (Timeout (interval c)) else expirationInterval c)"
    by (simp add: ttl_set_def startExpirationInterval_def Let_def jsmap_size_set_pos)
  ultimately show ?thesis
    by (simp add: ttl_clear_def ttl_delete_def ttl_get_def sweep_callback_def Let_def
        jsmap_size_def expire_each_timer split: option.splits)
qed

section \<open>CacheTTL and CacheLRU: reading back what was set\<close>

text \<open>
  C8. For both caches, set(k, v) followed at once by get(k) returns v: for CacheTTL when
  the clock at the get has not passed the clock at the set plus the ttl (the ttl given,
  or the interval when none is given); for CacheLRU always, since the set that has just
  inserted k evicted before inserting.
\<close>

theorem C8_set_get_roundtrip:
  "(t1 \<le> t0 + (case ttl of None \<Rightarrow> interval c | Some t \<Rightarrow> t) \<longrightarrow>
      fst (ttl_get k t1 (ttl_set k v ttl t0 c)) = Some v)
   \<and> fst (lru_get k (lru_set k v c')) = Some v"
  by (simp add: ttl_get_def ttl_set_def startExpirationInterval_def Let_def jsmap_get_set
      lru_get_def lru_set_def jsmap_has_get split: option.splits)

theorem C8_set_get_roundtrip_witness:
  "(5::int) \<le> 0 + (case Some 10 of None \<Rightarrow> interval (ttl_new 0 :: (string, int) cache_ttl) | Some t \<Rightarrow> t)
   \<and> fst (ttl_get ''a'' 5 (ttl_set ''a'' (1::int) (Some 10) 0 (ttl_new 0))) = Some 1
   \<and> fst (lru_get ''a'' (lru_set ''a'' (1::int) (lru_new 2))) = Some 1"
  using C8_set_get_roundtrip [where ?t1.0 = 5 and ?t0.0 = 0 and ttl = "Some 10" and k = "''a''" and v = "1::int"
      and c = "ttl_new 0" and c' = "lru_new 2"]
  by simp

section \<open>CacheTTL: the lazy check of get\<close>

text \<open>
  C9. An entry whose stored expiry is exactly 0 is not removed by get: get returns the
  stored value and leaves the cache as it is, whatever the clock reads. A set with
  \<open>now + ttl = 0\<close> stores such an expiry.
\<close>

theorem C9_zero_expiry_survives_get:
  "(jsmap_get k (expirationTimes c) = Some 0 \<longrightarrow>
      ttl_get k now c = (jsmap_get k (ttl_entries c), c))
   \<and> (t0 + ttl = 0 \<longrightarrow>
      jsmap_get k (expirationTimes (ttl_set k v (Some ttl) t0 c0)) = Some 0
      \<and> ttl_get k now (ttl_set k v (Some ttl) t0 c0)
          = (Some v, ttl_set k v (Some ttl) t0 c0))"
  by (simp add: ttl_get_def ttl_set_def startExpirationInterval_def Let_def jsmap_get_set)

theorem C9_zero_expiry_witness:
  "jsmap_get ''a'' (expirationTimes (ttl_set ''a'' (1::int) (Some (- 1000)) 1000 (ttl_new 0)))
     = Some 0
   \<and> (1000::int) + (- 1000) = 0
   \<and> ttl_get ''a'' 999999 (ttl_set ''a'' (1::int) (Some (- 1000)) 1000 (ttl_new 0))
     = (Some 1, ttl_set ''a'' (1::int) (Some (- 1000)) 1000 (ttl_new 0))"
  using C9_zero_expiry_survives_get [where k = "''a''" and v = "1::int" and ?t0.0 = 1000 and ttl = "- 1000"
      and now = 999999 and ?c0.0 = "ttl_new 0"
      and c = "ttl_set ''a'' (1::int) (Some (- 1000)) 1000 (ttl_new 0)"]
  by simp

text \<open>
  A negative ttl raises no error (set is total) and the stored expiry is before the
  clock of the set. A later get returns absent when that expiry is not 0.
\<close>

lemma ttl_negative_absent:
  assumes "ttl < 0" and "t0 \<le> t" and "t0 + ttl \<noteq> 0"
  shows "fst (ttl_get k t (ttl_set k v (Some ttl) t0 c)) = None"
  using assms
  by (simp add: ttl_get_def ttl_set_def startExpirationInterval_def Let_def jsmap_get_set)

text \<open>
  C7, the failing input: at clock 1700000000000, set("a", 1, -1700000000000) stores the
  expiry 0, and the get that follows returns 1, not absent.
\<close>

theorem C7_negative_ttl_zero_expiry_read:
  "fst (ttl_get ''a'' 1700000000000
          (ttl_set ''a'' (1::int) (Some (- 1700000000000)) 1700000000000 (ttl_new 0)))
   = Some 1"
  by (simp add: ttl_get_def ttl_set_def ttl_new_def startExpirationInterval_def Let_def)

text \<open>
  C2, as stated, fails at the expiry itself: set("a", 1, 50) at clock 0 gives expiry 50,
  and get("a") at clock 50 returns 1.
\<close>

theorem C2_get_at_expiry_counterexample:
  "fst (ttl_get ''a'' 50 (ttl_set ''a'' (1::int) (Some 50) 0 (ttl_new 0))) = Some 1"
  by (simp add: ttl_get_def ttl_set_def ttl_new_def startExpirationInterval_def Let_def)

lemma expire_each_get_exp:
  "ttl_inv c \<Longrightarrow>
   jsmap_get k (expirationTimes (expire_each now xs c)) =
     (if \<exists>e. (k, e) \<in> set xs \<and> now > e then None else jsmap_get k (expirationTimes c))"
proof (induction xs arbitrary: c)
  case Nil
  then show ?case by simp
next
  case (Cons p xs)
  obtain key ttl where p: "p = (key, ttl)" by (cases p)
  let ?c' = "if now > ttl
        then c\<lparr>expirationTimes := jsmap_delete key (expirationTimes c),
               ttl_entries := jsmap_delete key (ttl_entries c)\<rparr>
        else c"
  have inv': "ttl_inv ?c'" using Cons.prems ttl_inv_delete_both [OF Cons.prems, of key] by simp
  have d: "distinct (jsmap_keys (expirationTimes c))" using Cons.prems by (simp add: ttl_inv_def)
  have g: "jsmap_get k (expirationTimes ?c') =
      (if now > ttl \<and> k = key then None else jsmap_get k (expirationTimes c))"
    using d by (simp add: jsmap_get_delete)
  have "jsmap_get k (expirationTimes (expire_each now xs ?c')) =
     (if \<exists>e. (k, e) \<in> set xs \<and> now > e then None else jsmap_get k (expirationTimes ?c'))"
    by (rule Cons.IH [OF inv'])
  then show ?case unfolding p expire_each.simps g by auto
qed

lemma expire_each_get_val:
  "ttl_inv c \<Longrightarrow>
   jsmap_get k (ttl_entries (expire_each now xs c)) =
     (if \<exists>e. (k, e) \<in> set xs \<and> now > e then None else jsmap_get k (ttl_entries c))"
proof (induction xs arbitrary: c)
  case Nil
  then show ?case by simp
next
  case (Cons p xs)
  obtain key ttl where p: "p = (key, ttl)" by (cases p)
  let ?c' = "if now > ttl
        then c\<lparr>expirationTimes := jsmap_delete key (expirationTimes c),
               ttl_entries := jsmap_delete key (ttl_entries c)\<rparr>
        else c"
  have inv': "ttl_inv ?c'" using Cons.prems ttl_inv_delete_both [OF Cons.prems, of key] by simp
  have d: "distinct (jsmap_keys (ttl_entries c))" using Cons.prems by (simp add: ttl_inv_def)
  have g: "jsmap_get k (ttl_entries ?c') =
      (if now > ttl \<and> k = key then None else jsmap_get k (ttl_entries c))"
    using d by (simp add: jsmap_get_delete)
  have "jsmap_get k (ttl_entries (expire_each now xs ?c')) =
     (if \<exists>e. (k, e) \<in> set xs \<and> now > e then None else jsmap_get k (ttl_entries ?c'))"
    by (rule Cons.IH [OF inv'])
  then show ?case unfolding p expire_each.simps g by auto
qed

lemma jsmap_get_Some_mem:
  "distinct (jsmap_keys m) \<Longrightarrow> (jsmap_get k m = Some v) = ((k, v) \<in> set m)"
proof (induction m)
  case Nil
  then show ?case by simp
next
  case (Cons p m)
  obtain k' v' where p: "p = (k', v')" by (cases p)
  have "k' \<notin> fst ` set m" using Cons.prems p by (simp add: jsmap_keys_def)
  then have "(k', v) \<notin> set m" by force
  then show ?case using Cons p by auto
qed

lemma sweep_get_exp:
  assumes "ttl_inv c"
  shows "jsmap_get k (expirationTimes (sweep_callback now c)) =
     (case jsmap_get k (expirationTimes c) of
        None \<Rightarrow> None
      | Some e \<Rightarrow> if now > e then None else Some e)"
proof -
  have d: "distinct (jsmap_keys (expirationTimes c))" using assms by (simp add: ttl_inv_def)
  have "jsmap_get k (expirationTimes (sweep_callback now c))
      = jsmap_get k (expirationTimes (expire_each now (expirationTimes c) c))"
    by (simp add: sweep_callback_def Let_def)
  moreover have "(\<exists>e. (k, e) \<in> set (expirationTimes c) \<and> now > e)
      = (\<exists>e. jsmap_get k (expirationTimes c) = Some e \<and> now > e)"
    by (simp add: jsmap_get_Some_mem [OF d])
  ultimately show ?thesis
    by (cases "jsmap_get k (expirationTimes c)") (simp_all add: expire_each_get_exp [OF assms])
qed

lemma sweep_get_val:
  assumes "ttl_inv c"
  shows "jsmap_get k (ttl_entries (sweep_callback now c)) =
     (case jsmap_get k (expirationTimes c) of
        None \<Rightarrow> jsmap_get k (ttl_entries c)
      | Some e \<Rightarrow> if now > e then None else jsmap_get k (ttl_entries c))"
proof -
  have d: "distinct (jsmap_keys (expirationTimes c))" using assms by (simp add: ttl_inv_def)
  have "jsmap_get k (ttl_entries (sweep_callback now c))
      = jsmap_get k (ttl_entries (expire_each now (expirationTimes c) c))"
    by (simp add: sweep_callback_def Let_def)
  moreover have "(\<exists>e. (k, e) \<in> set (expirationTimes c) \<and> now > e)
      = (\<exists>e. jsmap_get k (expirationTimes c) = Some e \<and> now > e)"
    by (simp add: jsmap_get_Some_mem [OF d])
  ultimately show ?thesis
    by (cases "jsmap_get k (expirationTimes c)") (simp_all add: expire_each_get_val [OF assms])
qed

lemma ttl_live_set:
  assumes "ttl_live k v e t c" and "k' \<noteq> k"
  shows "ttl_live k v e t (ttl_set k' v' ttl s c)"
proof -
  have inv: "ttl_inv (ttl_set k' v' ttl s c)"
    using assms(1) by (simp add: ttl_live_def ttl_inv_set)
  have "jsmap_get k (expirationTimes (ttl_set k' v' ttl s c)) = jsmap_get k (expirationTimes c)"
    and "jsmap_get k (ttl_entries (ttl_set k' v' ttl s c)) = jsmap_get k (ttl_entries c)"
    using assms(2)
    by (simp_all add: ttl_set_def startExpirationInterval_def Let_def jsmap_get_set)
  then show ?thesis using assms(1) inv by (simp add: ttl_live_def)
qed

lemma ttl_live_delete_both:
  assumes "ttl_live k v e t c" and "k' \<noteq> k \<or> e < t"
  shows "ttl_live k v e t
           (c\<lparr>expirationTimes := jsmap_delete k' (expirationTimes c),
              ttl_entries := jsmap_delete k' (ttl_entries c)\<rparr>)"
proof -
  have inv: "ttl_inv c" using assms(1) by (simp add: ttl_live_def)
  then have d: "distinct (jsmap_keys (expirationTimes c))" "distinct (jsmap_keys (ttl_entries c))"
    by (simp_all add: ttl_inv_def)
  show ?thesis
    using assms ttl_inv_delete_both [OF inv, of k']
    by (auto simp: ttl_live_def jsmap_get_delete [OF d(1)] jsmap_get_delete [OF d(2)])
qed

lemma ttl_live_get:
  assumes "ttl_live k v e t c" and "s \<le> t"
  shows "ttl_live k v e t (snd (ttl_get k' s c))"
proof (cases "jsmap_get k' (expirationTimes c)")
  case None
  then show ?thesis using assms(1) by (simp add: ttl_get_def)
next
  case (Some e')
  show ?thesis
  proof (cases "e' \<noteq> 0 \<and> s > e'")
    case False
    then show ?thesis using Some assms(1) by (auto simp: ttl_get_def)
  next
    case True
    have "k' \<noteq> k \<or> e < t"
    proof (cases "k' = k")
      case False
      then show ?thesis by simp
    next
      case same: True
      then have "jsmap_get k (expirationTimes c) = Some e'" using Some by simp
      then have "e' = e" using assms(1) by (auto simp: ttl_live_def)
      then show ?thesis using True assms(2) by simp
    qed
    then show ?thesis
      using Some True ttl_live_delete_both [OF assms(1), of k'] by (simp add: ttl_get_def)
  qed
qed

lemma ttl_live_delete:
  assumes "ttl_live k v e t c" and "k' \<noteq> k"
  shows "ttl_live k v e t (snd (ttl_delete k' c))"
  using ttl_live_delete_both [OF assms(1), of k'] assms(2)
  by (simp add: ttl_delete_def Let_def)

lemma ttl_live_tick:
  assumes "ttl_live k v e t c" and "s \<le> t"
  shows "ttl_live k v e t (ttl_step s TTick c)"
proof (cases "expirationInterval c = None")
  case True
  then show ?thesis using assms by simp
next
  case False
  have inv: "ttl_inv c" using assms(1) by (simp add: ttl_live_def)
  show ?thesis
    using False assms ttl_inv_sweep [OF inv, of s]
    by (auto simp: ttl_live_def sweep_get_exp [OF inv] sweep_get_val [OF inv]
        split: if_splits)
qed

lemma ttl_live_step:
  assumes "ttl_live k v e t c" and "s \<le> t" and "ttl_keeps k op"
  shows "ttl_live k v e t (ttl_step s op c)"
proof (cases op)
  case (TSet k' v' ttl)
  then show ?thesis using assms ttl_live_set [OF assms(1), of k'] by simp
next
  case (TGet k')
  then show ?thesis using ttl_live_get [OF assms(1,2)] by simp
next
  case (TDelete k')
  then show ?thesis using assms ttl_live_delete [OF assms(1), of k'] by simp
next
  case TClear
  then show ?thesis using assms(3) by simp
next
  case TTick
  then show ?thesis using ttl_live_tick [OF assms(1,2)] by simp
qed

lemma ttl_live_run:
  "ttl_live k v e t c \<Longrightarrow> \<forall>p\<in>set evs. fst p \<le> t \<and> ttl_keeps k (snd p) \<Longrightarrow>
   ttl_live k v e t (ttl_run evs c)"
proof (induction evs arbitrary: c)
  case Nil
  then show ?case by simp
next
  case (Cons p evs)
  obtain s op where p: "p = (s, op)" by (cases p)
  have "ttl_live k v e t (ttl_step s op c)"
    using ttl_live_step [OF Cons.prems(1), of s op] Cons.prems(2) p by simp
  then have "ttl_live k v e t (ttl_run evs (ttl_step s op c))"
    using Cons.IH Cons.prems(2) by simp
  then show ?case by (simp add: p)
qed

text \<open>
  C2, amended. On any reachable CacheTTL, after set(k, v, ttl) with \<open>ttl > 0\<close> at a
  non-negative clock reading \<open>t0\<close> (expiry \<open>e = t0 + ttl\<close>), and then any events up to
  clock \<open>t\<close> that do not set, delete or clear k (gets of k or of other keys, firings of
  the timer, sets and deletes of other keys), get(k) at clock \<open>t\<close> returns v when
  \<open>t \<le> e\<close> and absent when \<open>t > e\<close>.
\<close>

theorem C2_get_exact_expiry:
  assumes "0 < ttl" and "0 \<le> t0"
    and "\<forall>p\<in>set evs. fst p \<le> t \<and> ttl_keeps k (snd p)"
  shows "fst (ttl_get k t (ttl_run evs
                 (ttl_set k v (Some ttl) t0 (ttl_run ops (ttl_new i)))))
         = (if t \<le> t0 + ttl then Some v else None)"
proof -
  let ?c0 = "ttl_run ops (ttl_new i)"
  let ?c1 = "ttl_set k v (Some ttl) t0 ?c0"
  let ?c2 = "ttl_run evs ?c1"
  have "ttl_inv ?c1" by (intro ttl_inv_set ttl_inv_run ttl_inv_new)
  moreover have "jsmap_get k (expirationTimes ?c1) = Some (t0 + ttl)"
    and "jsmap_get k (ttl_entries ?c1) = Some v"
    by (simp_all add: ttl_set_def startExpirationInterval_def Let_def jsmap_get_set)
  ultimately have "ttl_live k v (t0 + ttl) t ?c1" by (simp add: ttl_live_def)
  then have "ttl_live k v (t0 + ttl) t ?c2" using assms(3) by (rule ttl_live_run)
  then show ?thesis using assms(1,2) by (auto simp: ttl_live_def ttl_get_def)
qed

theorem C2_get_exact_expiry_witness:
  "(0::int) < 50 \<and> (0::int) \<le> 0
   \<and> (10::int) \<le> 50 \<and> ttl_keeps ''a'' (TGet ''a'' :: (string, int) ttl_op)
   \<and> (20::int) \<le> 50 \<and> ttl_keeps ''a'' (TSet ''b'' (2::int) None)
   \<and> (40::int) \<le> 50 \<and> ttl_keeps ''a'' (TTick :: (string, int) ttl_op)
   \<and> (45::int) \<le> 50 \<and> ttl_keeps ''a'' (TDelete ''b'' :: (string, int) ttl_op)
   \<and> fst (ttl_get ''a'' 50
        (ttl_run [(10, TGet ''a''), (20, TSet ''b'' 2 None), (40, TTick), (45, TDelete ''b'')]
           (ttl_set ''a'' (1::int) (Some 50) 0 (ttl_run [(0, TSet ''z'' 9 None)] (ttl_new 20)))))
       = Some 1
   \<and> fst (ttl_get ''a'' 51
        (ttl_run [(10, TGet ''a''), (20, TSet ''b'' 2 None), (40, TTick), (45, TDelete ''b'')]
           (ttl_set ''a'' (1::int) (Some 50) 0 (ttl_run [(0, TSet ''z'' 9 None)] (ttl_new 20)))))
       = None"
  using C2_get_exact_expiry [where ttl = 50 and ?t0.0 = 0 and t = 50 and k = "''a''" and v = "1::int"
      and evs = "[(10, TGet ''a''), (20, TSet ''b'' 2 None), (40, TTick), (45, TDelete ''b'')]"
      and ops = "[(0, TSet ''z'' 9 None)]" and i = 20]
    C2_get_exact_expiry [where ttl = 50 and ?t0.0 = 0 and t = 51 and k = "''a''" and v = "1::int"
      and evs = "[(10, TGet ''a''), (20, TSet ''b'' 2 None), (40, TTick), (45, TDelete ''b'')]"
      and ops = "[(0, TSet ''z'' 9 None)]" and i = 20]
  by simp

end
